theory Spec2Isabelle
  imports Complex_Main
begin

section \<open>Data model of the run orchestrator\<close>

text \<open>
  The embedding follows the class \<open>Run\<close>. A JavaScript \<open>number\<close> is modelled as an exact
  rational (\<open>length / 4\<close> and the sums of the accountant are not rounded), a string as a
  list of characters, a \<open>Record<string, T>\<close> as an association list in insertion order
  (the order of \<open>Object.values\<close>) with own keys only. A property read on \<open>undefined\<close>
  is the exception \<open>TypeError\<close>, carrying the name of the property that was read.
\<close>

datatype thrown =
    TypeError string
  | JsError string
  | ProviderError string

datatype stoppageReason = ReasonUser | ReasonError | ReasonComplete

record model =
  name :: string
  promptTokenPrice :: rat
  completionTokenPrice :: rat

record modelUsage =
  promptTokens :: rat
  completionTokens :: rat
  apiCalls :: nat
  totalCost :: rat

text \<open>
  \<open>Usage.model\<close> is declared \<open>Model\<close>, but \<open>this.modelInfo[request.model]\<close> is
  \<open>undefined\<close> at run time for a name outside the price table, and that value is what
  the mock branch stores: the field is an option.
\<close>

record usage =
  model :: "model option"
  modelUsage :: modelUsage

type_synonym usageTable = "(string \<times> usage) list"

text \<open>
  \<open>this.usage\<close> holds a reference to one object that is only ever mutated; a
  \<open>Stoppage\<close> carries the same reference. References are addresses into a store of
  usage tables.
\<close>

type_synonym ref = nat

record stoppage =
  reason :: stoppageReason
  usage_ref :: ref
  totalCost_sum :: rat
  message :: "string option"


subsection \<open>Usage and cost accountant\<close>

definition calculateLLMCostForModel :: "usage \<Rightarrow> thrown + rat" where
  "calculateLLMCostForModel u =
     (case model u of
        None \<Rightarrow> Inl (TypeError ''promptTokenPrice'')
      | Some m \<Rightarrow>
          (let promptCost = promptTokenPrice m * promptTokens (modelUsage u);
               completionCost = completionTokenPrice m * completionTokens (modelUsage u);
               totalCost = promptCost + completionCost
           in Inr totalCost))"

text \<open>The loop of \<open>calculateAllLLMCosts\<close>: entries before a failing one stay updated.\<close>

fun costEntries :: "usageTable \<Rightarrow> (thrown + unit) \<times> usageTable" where
  "costEntries [] = (Inr (), [])"
| "costEntries ((k, u) # t) =
     (case calculateLLMCostForModel u of
        Inl e \<Rightarrow> (Inl e, (k, u) # t)
      | Inr c \<Rightarrow>
          (case costEntries t of
             (res, t') \<Rightarrow> (res, (k, u\<lparr>modelUsage := (modelUsage u)\<lparr>totalCost := c\<rparr>\<rparr>) # t')))"

text \<open>The loop of \<open>getTotalCost\<close>, with its accumulator.\<close>

fun sumCosts :: "rat \<Rightarrow> usageTable \<Rightarrow> thrown + rat" where
  "sumCosts acc [] = Inr acc"
| "sumCosts acc ((k, u) # t) =
     (case calculateLLMCostForModel u of
        Inl e \<Rightarrow> Inl e
      | Inr c \<Rightarrow> sumCosts (acc + c) t)"

subsection \<open>Requests, messages and provider replies\<close>













subsection \<open>Work items and the run\<close>

datatype cannoliObjectStatus = Pending | Executing | Complete | Rejected | Error | Warning

datatype nodeClass = CallNode | DisplayNode | DynamicReferenceNode | FloatingNode | OtherClass

text \<open>
  A work item as the run reads it: its \<open>id\<close>, \<open>text\<close>, \<open>status\<close> and
  \<open>dependencies\<close>, the result of \<open>getAllDependencies()\<close> (the objects, named by their
  keys in the graph), and the outcome of the two \<open>instanceof\<close> tests.
\<close>

record cannoliObject =
  obj_id :: string
  obj_text :: string
  status :: cannoliObjectStatus
  dependencies :: "string list"
  getAllDependencies :: "string list"
  nodeClass :: nodeClass
  isCannoliVertex :: bool

datatype canvasOp =
    ChangeNodeColor string string
  | ChangeNodeText string string
  | AddErrorNode string string
  | AddWarningNode string string
  | RemoveAllErrorNodes

text \<open>
  The state of a run. \<open>openai\<close> says whether \<open>this.openai\<close> is set, \<open>canvas\<close> is
  \<open>None\<close> for \<open>null\<close> and otherwise the operations enqueued so far, \<open>usage\<close> is the
  reference held in \<open>this.usage\<close> and \<open>store\<close> the objects such references point to.
  \<open>finished\<close> lists the calls of \<open>onFinish\<close> and \<open>executed\<close> the items whose
  \<open>execute()\<close> was called, both in order.
\<close>

record run =
  graph :: "(string \<times> cannoliObject) list"
  isMock :: bool
  isStopped :: bool
  openai :: bool
  canvas :: "canvasOp list option"
  llmLimit :: nat
  usage :: ref
  store :: "ref \<Rightarrow> usageTable"
  finished :: "stoppage list"
  executed :: "string list"

text \<open>The constructor: \<open>isMock ?? false\<close>, \<open>this.usage = {}\<close>, \<open>pLimit(llmLimit ?? 10)\<close>.\<close>

definition newRun ::
  "(string \<times> cannoliObject) list \<Rightarrow> bool option \<Rightarrow> bool \<Rightarrow> bool \<Rightarrow> nat option \<Rightarrow> run" where
  "newRun g mock hasCanvas hasOpenai limit =
     \<lparr>graph = g,
      isMock = (case mock of None \<Rightarrow> False | Some b \<Rightarrow> b),
      isStopped = False,
      openai = hasOpenai,
      canvas = (if hasCanvas then Some [] else None),
      llmLimit = (case limit of None \<Rightarrow> 10 | Some n \<Rightarrow> n),
      usage = 0,
      store = (\<lambda>a. []),
      finished = [],
      executed = []\<rparr>"

definition usageTableOf :: "run \<Rightarrow> usageTable" where
  "usageTableOf r = store r (usage r)"

definition setUsageTable :: "run \<Rightarrow> usageTable \<Rightarrow> run" where
  "setUsageTable r t = r\<lparr>store := (store r)(usage r := t)\<rparr>"

definition calculateAllLLMCosts :: "run \<Rightarrow> (thrown + ref) \<times> run" where
  "calculateAllLLMCosts r =
     (case costEntries (usageTableOf r) of
        (Inl e, t') \<Rightarrow> (Inl e, setUsageTable r t')
      | (Inr _, t') \<Rightarrow> (Inr (usage r), setUsageTable r t'))"

definition getTotalCost :: "run \<Rightarrow> thrown + rat" where
  "getTotalCost r = sumCosts 0 (usageTableOf r)"

subsection \<open>The throttled call: \<open>callLLM\<close>\<close>



















subsection \<open>Stopping the run\<close>

text \<open>
  The call \<open>this.onFinish({reason, usage: this.calculateAllLLMCosts(), totalCost:
  this.getTotalCost(), message})\<close>, which \<open>error\<close>, \<open>stop\<close>, \<open>objectCompleted\<close> and
  \<open>objectRejected\<close> each spell out: the argument is evaluated field by field, then the
  callback is called.
\<close>

definition callOnFinish :: "stoppageReason \<Rightarrow> string option \<Rightarrow> run \<Rightarrow> (thrown + unit) \<times> run" where
  "callOnFinish why msg r =
     (case calculateAllLLMCosts r of
        (Inl e, r1) \<Rightarrow> (Inl e, r1)
      | (Inr u, r1) \<Rightarrow>
          (case getTotalCost r1 of
             Inl e \<Rightarrow> (Inl e, r1)
           | Inr c \<Rightarrow>
               (Inr (),
                r1\<lparr>finished := finished r1
                     @ [\<lparr>reason = why, usage_ref = u, totalCost_sum = c, message = msg\<rparr>]\<rparr>)))"

definition error :: "run \<Rightarrow> string \<Rightarrow> (thrown + unit) \<times> run" where
  "error r msg =
     (case callOnFinish ReasonError (Some msg) (r\<lparr>isStopped := True\<rparr>) of
        (Inl e, r') \<Rightarrow> (Inl e, r')
      | (Inr _, r') \<Rightarrow> (Inl (JsError msg), r'))"

definition stop :: "run \<Rightarrow> (thrown + unit) \<times> run" where
  "stop r = callOnFinish ReasonUser None (r\<lparr>isStopped := True\<rparr>)"

text \<open>\<open>reset\<close>; what \<open>object.reset()\<close> does to an item is the item's own.\<close>

definition reset :: "run \<Rightarrow> run" where
  "reset r = r\<lparr>isStopped := False\<rparr>"

subsection \<open>Status events\<close>

fun allObjectsFinishedLoop :: "(string \<times> cannoliObject) list \<Rightarrow> bool" where
  "allObjectsFinishedLoop [] = True"
| "allObjectsFinishedLoop ((k, object) # g) =
     (if status object \<noteq> Complete \<and> status object \<noteq> Rejected then False
      else allObjectsFinishedLoop g)"

definition allObjectsFinished :: "run \<Rightarrow> bool" where
  "allObjectsFinished r = allObjectsFinishedLoop (graph r)"

text \<open>A canvas method called under the test \<open>this.canvas\<close>.\<close>

definition enqueue :: "canvasOp \<Rightarrow> run \<Rightarrow> run" where
  "enqueue op r = (case canvas r of None \<Rightarrow> r | Some q \<Rightarrow> r\<lparr>canvas := Some (q @ [op])\<rparr>)"

definition objectCompleted :: "run \<Rightarrow> cannoliObject \<Rightarrow> (thrown + unit) \<times> run" where
  "objectCompleted r object =
     (let r1 =
        (if \<not> isMock r \<and> canvas r \<noteq> None then
           (if nodeClass object = CallNode then enqueue (ChangeNodeColor (obj_id object) ''4'') r
            else if nodeClass object = DisplayNode \<or> nodeClass object = DynamicReferenceNode
                    \<or> nodeClass object = FloatingNode
              then enqueue (ChangeNodeText (obj_id object) (obj_text object)) r
            else r)
         else r)
      in if allObjectsFinished r1 \<and> \<not> isStopped r1
         then callOnFinish ReasonComplete None (r1\<lparr>isStopped := True\<rparr>)
         else (Inr (), r1))"

definition objectRejected :: "run \<Rightarrow> cannoliObject \<Rightarrow> (thrown + unit) \<times> run" where
  "objectRejected r object =
     (if allObjectsFinished r \<and> \<not> isStopped r
      then callOnFinish ReasonComplete None (r\<lparr>isStopped := True\<rparr>)
      else (Inr (), r))"

definition objectExecuting :: "run \<Rightarrow> cannoliObject \<Rightarrow> run" where
  "objectExecuting r object =
     (if \<not> isMock r \<and> canvas r \<noteq> None \<and> nodeClass object = CallNode
      then enqueue (ChangeNodeColor (obj_id object) ''3'') r else r)"

definition objectPending :: "run \<Rightarrow> cannoliObject \<Rightarrow> run" where
  "objectPending r object =
     (if canvas r \<noteq> None \<and> nodeClass object = CallNode
      then enqueue (ChangeNodeColor (obj_id object) ''0'') r else r)"

definition objectError :: "run \<Rightarrow> cannoliObject \<Rightarrow> string option \<Rightarrow> (thrown + unit) \<times> run" where
  "objectError r object msg =
     (let text' = (case msg of None \<Rightarrow> ''Unknown error'' | Some m \<Rightarrow> m);
          r1 = (if canvas r \<noteq> None \<and> isCannoliVertex object
                then enqueue (AddErrorNode (obj_id object) text') r else r)
      in error r1 text')"

definition objectWarning :: "run \<Rightarrow> cannoliObject \<Rightarrow> string option \<Rightarrow> run" where
  "objectWarning r object msg =
     (if canvas r \<noteq> None \<and> isCannoliVertex object
      then enqueue (AddWarningNode (obj_id object)
             (case msg of None \<Rightarrow> ''Unknown warning'' | Some m \<Rightarrow> m)) r
      else r)"

text \<open>
  The listener of every item's \<open>update\<close> event. The \<open>default\<close> case of the \<open>switch\<close>
  has no status of the enumeration to reach it.
\<close>

fun objectUpdated ::
  "run \<Rightarrow> cannoliObject \<Rightarrow> cannoliObjectStatus \<Rightarrow> string option \<Rightarrow> (thrown + unit) \<times> run" where
  "objectUpdated r object Complete msg = objectCompleted r object"
| "objectUpdated r object Rejected msg = objectRejected r object"
| "objectUpdated r object Executing msg = (Inr (), objectExecuting r object)"
| "objectUpdated r object Pending msg = (Inr (), objectPending r object)"
| "objectUpdated r object Error msg = objectError r object msg"
| "objectUpdated r object Warning msg = (Inr (), objectWarning r object msg)"

subsection \<open>Graph validation\<close>

datatype dagCheckState = UNVISITED | VISITING | VISITED

text \<open>
  The closure \<open>visit\<close> of \<open>isDAG\<close> and its loop over \<open>obj.getAllDependencies()\<close>, with
  the map \<open>states\<close> passed through. The first argument bounds the depth of the recursion
  (the call stack): at depth zero nothing is returned.
\<close>

fun visit ::
    "nat \<Rightarrow> ('v \<Rightarrow> 'v list) \<Rightarrow> ('v \<rightharpoonup> dagCheckState) \<Rightarrow> 'v \<Rightarrow> (bool \<times> ('v \<rightharpoonup> dagCheckState)) option"
  and visitDependencies ::
    "nat \<Rightarrow> ('v \<Rightarrow> 'v list) \<Rightarrow> ('v \<rightharpoonup> dagCheckState) \<Rightarrow> 'v list \<Rightarrow> (bool \<times> ('v \<rightharpoonup> dagCheckState)) option"
  where
  "visit 0 deps states obj = None"
| "visit (Suc n) deps states obj =
     (if states obj = Some VISITING then Some (False, states)
      else if states obj = Some VISITED then Some (True, states)
      else
        (case visitDependencies n deps (states(obj \<mapsto> VISITING)) (deps obj) of
           None \<Rightarrow> None
         | Some (False, states') \<Rightarrow> Some (False, states')
         | Some (True, states') \<Rightarrow> Some (True, states'(obj \<mapsto> VISITED))))"
| "visitDependencies n deps states [] = Some (True, states)"
| "visitDependencies n deps states (dependency # rest) =
     (case visit n deps states dependency of
        None \<Rightarrow> None
      | Some (False, states') \<Rightarrow> Some (False, states')
      | Some (True, states') \<Rightarrow> visitDependencies n deps states' rest)"

fun isDAGLoop ::
  "nat \<Rightarrow> ('v \<Rightarrow> 'v list) \<Rightarrow> ('v \<rightharpoonup> dagCheckState) \<Rightarrow> 'v list \<Rightarrow> bool option" where
  "isDAGLoop n deps states [] = Some True"
| "isDAGLoop n deps states (obj # rest) =
     (if states obj \<noteq> Some VISITED then
        (case visit n deps states obj of
           None \<Rightarrow> None
         | Some (False, states') \<Rightarrow> Some False
         | Some (True, states') \<Rightarrow> isDAGLoop n deps states' rest)
      else isDAGLoop n deps states rest)"

text \<open>\<open>getAllDependencies()\<close> of the object stored under a key.\<close>

definition dependenciesOf :: "(string \<times> cannoliObject) list \<Rightarrow> string \<Rightarrow> string list" where
  "dependenciesOf objects k =
     (case map_of objects k of None \<Rightarrow> [] | Some object \<Rightarrow> getAllDependencies object)"

definition isDAG :: "nat \<Rightarrow> (string \<times> cannoliObject) list \<Rightarrow> bool option" where
  "isDAG n objects = isDAGLoop n (dependenciesOf objects) Map.empty (map fst objects)"

text \<open>A recursion depth no traversal of the graph exceeds.\<close>

definition stackDepth :: "(string \<times> cannoliObject) list \<Rightarrow> nat" where
  "stackDepth objects =
     Suc (length objects + length (concat (map (\<lambda>(k, object). getAllDependencies object) objects)))"

definition cycleMessage :: string where
  "cycleMessage =
     ''Cycle detected in graph. Please make sure the graph is a DAG.'' @ [CHR 0x0A]
       @ ''(exception: edges between groups and their members)''"

text \<open>
  Modelled from the spec: \<open>CannoliVertex.error\<close> (in \<open>models/object\<close>, not part of the
  sources at hand). The vertex reports a structural error, "which in turn triggers the
  orchestrator's error path": the listener set up by \<open>setupListeners\<close> receives the
  status \<open>Error\<close> with the message.
\<close>

definition vertexError :: "run \<Rightarrow> cannoliObject \<Rightarrow> string \<Rightarrow> (thrown + unit) \<times> run" where
  "vertexError r object msg = objectUpdated r object Error (Some msg)"

fun errorVertices :: "run \<Rightarrow> (string \<times> cannoliObject) list \<Rightarrow> (thrown + unit) \<times> run" where
  "errorVertices r [] = (Inr (), r)"
| "errorVertices r ((k, object) # g) =
     (if isCannoliVertex object then
        (case vertexError r object cycleMessage of
           (Inl e, r') \<Rightarrow> (Inl e, r')
         | (Inr _, r') \<Rightarrow> errorVertices r' g)
      else errorVertices r g)"

text \<open>
  \<open>validate\<close>; what \<open>object.validate()\<close> checks of an item is the item's own. A
  recursion that runs out of stack is a \<open>RangeError\<close>.
\<close>

definition validate :: "run \<Rightarrow> (thrown + unit) \<times> run" where
  "validate r =
     (case isDAG (stackDepth (graph r)) (graph r) of
        None \<Rightarrow> (Inl (JsError ''RangeError''), r)
      | Some True \<Rightarrow> (Inr (), r)
      | Some False \<Rightarrow> errorVertices r (graph r))"

fun executeRoots :: "run \<Rightarrow> (string \<times> cannoliObject) list \<Rightarrow> run" where
  "executeRoots r [] = r"
| "executeRoots r ((k, object) # g) =
     (if length (dependencies object) = 0
      then executeRoots (r\<lparr>executed := executed r @ [obj_id object]\<rparr>) g
      else executeRoots r g)"

text \<open>
  \<open>start\<close>: \<open>logGraph\<close> and \<open>setupListeners\<close> leave the state as it is; an exception
  of \<open>validate\<close> ends \<open>start\<close> before the roots are executed.
\<close>

definition start :: "run \<Rightarrow> (thrown + unit) \<times> run" where
  "start r =
     (case validate (reset r) of
        (Inl e, r1) \<Rightarrow> (Inl e, r1)
      | (Inr _, r1) \<Rightarrow>
          (let r2 = (if canvas r1 \<noteq> None then enqueue RemoveAllErrorNodes r1 else r1)
           in (Inr (), executeRoots r2 (graph r2))))"

section \<open>Notions used in the statements\<close>


text \<open>Every usage record carries its model, as the type \<open>Usage\<close> declares.\<close>

definition pricedUsage :: "run \<Rightarrow> bool" where
  "pricedUsage r = list_all (\<lambda>(k, u). model u \<noteq> None) (usageTableOf r)"


text \<open>
  An entry after \<open>calculateAllLLMCosts\<close>, against the entry before: same key, model and
  counters, and the cost of the old entry as its \<open>totalCost\<close>.
\<close>

definition recosted :: "string \<times> usage \<Rightarrow> string \<times> usage \<Rightarrow> bool" where
  "recosted old new =
     (fst new = fst old
      \<and> model (snd new) = model (snd old)
      \<and> promptTokens (modelUsage (snd new)) = promptTokens (modelUsage (snd old))
      \<and> completionTokens (modelUsage (snd new)) = completionTokens (modelUsage (snd old))
      \<and> apiCalls (modelUsage (snd new)) = apiCalls (modelUsage (snd old))
      \<and> calculateLLMCostForModel (snd old) = Inr (totalCost (modelUsage (snd new))))"


text \<open>
  The dependency relation of a graph, a cycle reachable from a node, and the invariants
  of the traversal: a \<open>VISITED\<close> node has only \<open>VISITED\<close> dependencies and lies on no
  cycle; a call leaves the \<open>VISITING\<close> nodes as they are and keeps the \<open>VISITED\<close>
  ones.
\<close>

definition dependencyRelation :: "('v \<Rightarrow> 'v list) \<Rightarrow> ('v \<times> 'v) set" where
  "dependencyRelation deps = {(obj, dependency). dependency \<in> set (deps obj)}"

definition cycleFrom :: "('v \<Rightarrow> 'v list) \<Rightarrow> 'v \<Rightarrow> bool" where
  "cycleFrom deps v =
     (\<exists>x. (v, x) \<in> (dependencyRelation deps)\<^sup>* \<and> (x, x) \<in> (dependencyRelation deps)\<^sup>+)"

definition settled :: "('v \<Rightarrow> 'v list) \<Rightarrow> ('v \<rightharpoonup> dagCheckState) \<Rightarrow> bool" where
  "settled deps st =
     ((\<forall>b d. st b = Some VISITED \<longrightarrow> d \<in> set (deps b) \<longrightarrow> st d = Some VISITED)
      \<and> (\<forall>b. st b = Some VISITED \<longrightarrow> (b, b) \<notin> (dependencyRelation deps)\<^sup>+))"

definition extends :: "('v \<rightharpoonup> dagCheckState) \<Rightarrow> ('v \<rightharpoonup> dagCheckState) \<Rightarrow> bool" where
  "extends st st' =
     ((\<forall>x. (st' x = Some VISITING) = (st x = Some VISITING))
      \<and> (\<forall>x. st x = Some VISITED \<longrightarrow> st' x = Some VISITED))"

definition unvisited :: "('v \<rightharpoonup> dagCheckState) \<Rightarrow> 'v set" where
  "unvisited st = {x. st x \<noteq> Some VISITING \<and> st x \<noteq> Some VISITED}"

definition visitSpec ::
  "('v \<Rightarrow> 'v list) \<Rightarrow> ('v \<rightharpoonup> dagCheckState) \<Rightarrow> 'v list \<Rightarrow> (bool \<times> ('v \<rightharpoonup> dagCheckState)) option \<Rightarrow> bool" where
  "visitSpec deps st targets res =
     (case res of
        None \<Rightarrow> True
      | Some (True, st') \<Rightarrow>
          settled deps st' \<and> extends st st' \<and> (\<forall>d \<in> set targets. st' d = Some VISITED)
      | Some (False, st') \<Rightarrow> (\<exists>d \<in> set targets. cycleFrom deps d))"

definition visitPre :: "('v \<Rightarrow> 'v list) \<Rightarrow> ('v \<rightharpoonup> dagCheckState) \<Rightarrow> 'v list \<Rightarrow> bool" where
  "visitPre deps st targets =
     (settled deps st
      \<and> (\<forall>g d. st g = Some VISITING \<longrightarrow> d \<in> set targets \<longrightarrow> (g, d) \<in> (dependencyRelation deps)\<^sup>+))"

section \<open>Auxiliary facts\<close>

subsection \<open>The usage table\<close>

lemma usageTableOf_setUsageTable: "usageTableOf (setUsageTable r t) = t"
  by (simp add: usageTableOf_def setUsageTable_def)













lemma cost_present: "model u \<noteq> None \<Longrightarrow> \<exists>c. calculateLLMCostForModel u = Inr c"
  by (auto simp: calculateLLMCostForModel_def Let_def)

lemma costEntries_priced:
  "list_all (\<lambda>(k, u). model u \<noteq> None) t \<Longrightarrow>
   \<exists>t'. costEntries t = (Inr (), t') \<and> list_all2 recosted t t'
        \<and> list_all (\<lambda>(k, u). model u \<noteq> None) t'"
proof (induction t)
  case Nil
  then show ?case by simp
next
  case (Cons p t)
  obtain k u where p: "p = (k, u)" by (cases p)
  from Cons.prems p have "model u \<noteq> None" by simp
  then obtain c where c: "calculateLLMCostForModel u = Inr c" using cost_present by blast
  from Cons obtain t' where t': "costEntries t = (Inr (), t')" "list_all2 recosted t t'"
      "list_all (\<lambda>(k, u). model u \<noteq> None) t'"
    by auto
  have hd: "recosted (k, u) (k, u\<lparr>modelUsage := (modelUsage u)\<lparr>totalCost := c\<rparr>\<rparr>)"
    using c by (simp add: recosted_def)
  show ?case using c t' hd \<open>model u \<noteq> None\<close> by (simp add: p)
qed

lemma sumCosts_priced:
  "list_all (\<lambda>(k, u). model u \<noteq> None) t \<Longrightarrow> \<exists>c. sumCosts acc t = Inr c"
proof (induction t arbitrary: acc)
  case Nil
  then show ?case by simp
next
  case (Cons p t)
  obtain k u where p: "p = (k, u)" by (cases p)
  from Cons.prems p have "model u \<noteq> None" by simp
  then obtain c where c: "calculateLLMCostForModel u = Inr c" using cost_present by blast
  show ?case using Cons c by (simp add: p)
qed

lemma callOnFinish_priced:
  assumes "pricedUsage r"
  shows "\<exists>t' c. callOnFinish why msg r
           = (Inr (), (setUsageTable r t')\<lparr>finished := finished r
                 @ [\<lparr>reason = why, usage_ref = usage r, totalCost_sum = c, message = msg\<rparr>]\<rparr>)
           \<and> list_all2 recosted (usageTableOf r) t'"
proof -
  obtain t' where t': "costEntries (usageTableOf r) = (Inr (), t')"
      "list_all2 recosted (usageTableOf r) t'" "list_all (\<lambda>(k, u). model u \<noteq> None) t'"
    using costEntries_priced assms unfolding pricedUsage_def by blast
  obtain c where c: "sumCosts 0 t' = Inr c" using sumCosts_priced[OF t'(3)] by blast
  have "callOnFinish why msg r
           = (Inr (), (setUsageTable r t')\<lparr>finished := finished r
                 @ [\<lparr>reason = why, usage_ref = usage r, totalCost_sum = c, message = msg\<rparr>]\<rparr>)"
    using t'(1) c
    by (simp add: callOnFinish_def calculateAllLLMCosts_def getTotalCost_def
        usageTableOf_setUsageTable) (simp add: setUsageTable_def)
  then show ?thesis using t'(2) by blast
qed

lemma callOnFinish_frame:
  "usage (snd (callOnFinish why msg r)) = usage r
   \<and> isStopped (snd (callOnFinish why msg r)) = isStopped r
   \<and> (finished (snd (callOnFinish why msg r)) = finished r
      \<or> (\<exists>c. finished (snd (callOnFinish why msg r))
            = finished r @ [\<lparr>reason = why, usage_ref = usage r, totalCost_sum = c, message = msg\<rparr>]))"
  by (auto simp: callOnFinish_def calculateAllLLMCosts_def setUsageTable_def
      split: prod.splits sum.splits)



subsection \<open>The traversal\<close>

lemma settled_reach:
  assumes "settled deps st" "st b = Some VISITED" "(b, x) \<in> (dependencyRelation deps)\<^sup>*"
  shows "st x = Some VISITED"
  using assms(3,2)
proof (induction rule: rtrancl_induct)
  case base
  then show ?case by simp
next
  case (step y z)
  have y: "st y = Some VISITED" using step by simp
  have z: "z \<in> set (deps y)" using step.hyps(2) by (simp add: dependencyRelation_def)
  show ?case using assms(1) y z unfolding settled_def by blast
qed

lemma settled_no_cycle:
  assumes "settled deps st" "st b = Some VISITED"
  shows "\<not> cycleFrom deps b"
proof
  assume "cycleFrom deps b"
  then obtain x where x: "(b, x) \<in> (dependencyRelation deps)\<^sup>*" "(x, x) \<in> (dependencyRelation deps)\<^sup>+"
    by (auto simp: cycleFrom_def)
  have "st x = Some VISITED" using settled_reach[OF assms x(1)] .
  then show False using assms(1) x(2) by (simp add: settled_def)
qed

lemma cycleFrom_step:
  "d \<in> set (deps v) \<Longrightarrow> cycleFrom deps d \<Longrightarrow> cycleFrom deps v"
proof -
  assume d: "d \<in> set (deps v)" and "cycleFrom deps d"
  then obtain x where x: "(d, x) \<in> (dependencyRelation deps)\<^sup>*"
      "(x, x) \<in> (dependencyRelation deps)\<^sup>+"
    unfolding cycleFrom_def by blast
  have "(v, d) \<in> dependencyRelation deps" using d by (simp add: dependencyRelation_def)
  then have "(v, x) \<in> (dependencyRelation deps)\<^sup>*"
    using x(1) by (rule converse_rtrancl_into_rtrancl)
  then show "cycleFrom deps v" using x(2) unfolding cycleFrom_def by blast
qed

lemma visitDependencies_spec:
  assumes V: "\<And>st v. visitPre deps st [v] \<Longrightarrow> visitSpec deps st [v] (visit n deps st v)"
  shows "visitPre deps st ds \<Longrightarrow> visitSpec deps st ds (visitDependencies n deps st ds)"
proof (induction ds arbitrary: st)
  case Nil
  then show ?case by (simp add: visitSpec_def visitPre_def extends_def)
next
  case (Cons d ds)
  have pre1: "visitPre deps st [d]" using Cons.prems by (simp add: visitPre_def)
  note v = V[OF pre1]
  show ?case
  proof (cases "visit n deps st d")
    case None
    then show ?thesis by (simp add: visitSpec_def)
  next
    case (Some p)
    obtain r st' where p: "p = (r, st')" by (cases p)
    show ?thesis
    proof (cases r)
      case False
      then show ?thesis using v Some p by (simp add: visitSpec_def)
    next
      case True
      then have s1: "settled deps st'" "extends st st'" "st' d = Some VISITED"
        using v Some p by (simp_all add: visitSpec_def)
      have pre2: "visitPre deps st' ds"
        using Cons.prems s1 by (simp add: visitPre_def extends_def)
      note ih = Cons.IH[OF pre2]
      show ?thesis
      proof (cases "visitDependencies n deps st' ds")
        case None
        then show ?thesis using Some p True by (simp add: visitSpec_def)
      next
        case (Some q)
        obtain r2 st2 where q: "q = (r2, st2)" by (cases q)
        show ?thesis
        proof (cases r2)
          case False
          then show ?thesis using ih Some q \<open>visit n deps st d = Some p\<close> p True
            by (auto simp: visitSpec_def)
        next
          case r2: True
          then have s2: "settled deps st2" "extends st' st2" "\<forall>x \<in> set ds. st2 x = Some VISITED"
            using ih Some q by (simp_all add: visitSpec_def)
          have "extends st st2" using s1(2) s2(2) by (simp add: extends_def)
          moreover have "st2 d = Some VISITED" using s1(3) s2(2) by (simp add: extends_def)
          ultimately show ?thesis using s2 Some q \<open>visit n deps st d = Some p\<close> p True r2
            by (simp add: visitSpec_def)
        qed
      qed
    qed
  qed
qed

lemma visit_step_spec:
  assumes D: "\<And>st ds. visitPre deps st ds \<Longrightarrow> visitSpec deps st ds (visitDependencies n deps st ds)"
    and pre: "visitPre deps st [v]"
  shows "visitSpec deps st [v] (visit (Suc n) deps st v)"
proof -
  let ?R = "dependencyRelation deps"
  consider (grey) "st v = Some VISITING" | (black) "st v = Some VISITED"
    | (white) "st v \<noteq> Some VISITING" "st v \<noteq> Some VISITED" by blast
  then show ?thesis
  proof cases
    case grey
    then have "(v, v) \<in> ?R\<^sup>+" using pre by (simp add: visitPre_def)
    then have "cycleFrom deps v" by (auto simp: cycleFrom_def)
    then show ?thesis using grey by (simp add: visitSpec_def)
  next
    case black
    then show ?thesis using pre by (simp add: visitSpec_def visitPre_def extends_def)
  next
    case white
    let ?st1 = "st(v \<mapsto> VISITING)"
    have set1: "settled deps ?st1"
      using pre white by (auto simp: visitPre_def settled_def)
    have grey1: "\<forall>g d. ?st1 g = Some VISITING \<longrightarrow> d \<in> set (deps v) \<longrightarrow> (g, d) \<in> ?R\<^sup>+"
    proof (intro allI impI)
      fix g d
      assume g: "?st1 g = Some VISITING" and d: "d \<in> set (deps v)"
      have vd: "(v, d) \<in> ?R" using d by (simp add: dependencyRelation_def)
      show "(g, d) \<in> ?R\<^sup>+"
      proof (cases "g = v")
        case True
        then show ?thesis using vd by auto
      next
        case False
        then have "st g = Some VISITING" using g by simp
        then have "(g, v) \<in> ?R\<^sup>+" using pre by (simp add: visitPre_def)
        then show ?thesis using vd by (rule trancl_into_trancl)
      qed
    qed
    have pre1: "visitPre deps ?st1 (deps v)" using set1 grey1 by (simp add: visitPre_def)
    note d = D[OF pre1]
    show ?thesis
    proof (cases "visitDependencies n deps ?st1 (deps v)")
      case None
      then show ?thesis using white by (simp add: visitSpec_def)
    next
      case (Some q)
      obtain r st2 where q: "q = (r, st2)" by (cases q)
      show ?thesis
      proof (cases r)
        case False
        then obtain d' where "d' \<in> set (deps v)" "cycleFrom deps d'"
          using d Some q by (auto simp: visitSpec_def)
        then have "cycleFrom deps v" by (rule cycleFrom_step)
        then show ?thesis using white Some q False by (simp add: visitSpec_def)
      next
        case True
        then have s2: "settled deps st2" "extends ?st1 st2" "\<forall>x \<in> set (deps v). st2 x = Some VISITED"
          using d Some q by (simp_all add: visitSpec_def)
        have vgrey: "st2 v = Some VISITING" using s2(2) by (simp add: extends_def)
        let ?st3 = "st2(v \<mapsto> VISITED)"
        have nocyc: "(v, v) \<notin> ?R\<^sup>+"
        proof
          assume "(v, v) \<in> ?R\<^sup>+"
          then obtain d' where d': "(v, d') \<in> ?R" "(d', v) \<in> ?R\<^sup>*"
            by (meson tranclD)
          then have "st2 d' = Some VISITED" using s2(3) by (simp add: dependencyRelation_def)
          then have "st2 v = Some VISITED" using settled_reach[OF s2(1) _ d'(2)] by simp
          then show False using vgrey by simp
        qed
        have set3: "settled deps ?st3"
          unfolding settled_def
        proof (intro conjI allI impI)
          fix b d'
          assume b: "?st3 b = Some VISITED" and dd: "d' \<in> set (deps b)"
          have "st2 d' = Some VISITED"
          proof (cases "b = v")
            case True
            then show ?thesis using s2(3) dd by simp
          next
            case False
            then have "st2 b = Some VISITED" using b by simp
            then show ?thesis using s2(1) dd by (auto simp: settled_def)
          qed
          then show "?st3 d' = Some VISITED" by simp
        next
          fix b
          assume b: "?st3 b = Some VISITED"
          show "(b, b) \<notin> ?R\<^sup>+"
          proof (cases "b = v")
            case True
            then show ?thesis using nocyc by simp
          next
            case False
            then have "st2 b = Some VISITED" using b by simp
            then show ?thesis using s2(1) by (simp add: settled_def)
          qed
        qed
        have ext3: "extends st ?st3"
          using s2(2) white by (auto simp: extends_def split: if_splits)
        show ?thesis using white Some q True set3 ext3 by (simp add: visitSpec_def)
      qed
    qed
  qed
qed

lemma visit_spec: "visitPre deps st [v] \<Longrightarrow> visitSpec deps st [v] (visit n deps st v)"
proof (induction n arbitrary: st v)
  case 0
  then show ?case by (simp add: visitSpec_def)
next
  case (Suc n)
  have D: "visitSpec deps st' ds (visitDependencies n deps st' ds)" if "visitPre deps st' ds" for st' ds
  proof (rule visitDependencies_spec)
    show "visitPre deps st' ds" by (rule that)
  next
    fix st'' w
    assume "visitPre deps st'' [w]"
    then show "visitSpec deps st'' [w] (visit n deps st'' w)" by (rule Suc.IH)
  qed
  show ?case
  proof (rule visit_step_spec)
    show "visitPre deps st [v]" by (rule Suc.prems)
  next
    fix st' ds
    assume "visitPre deps st' ds"
    then show "visitSpec deps st' ds (visitDependencies n deps st' ds)" by (rule D)
  qed
qed


lemma visitDependencies_mono:
  assumes V: "\<And>st v r st'. visit n deps st v = Some (r, st') \<Longrightarrow> unvisited st' \<subseteq> unvisited st"
  shows "visitDependencies n deps st ds = Some (r, st') \<Longrightarrow> unvisited st' \<subseteq> unvisited st"
proof (induction ds arbitrary: st)
  case Nil
  then show ?case by simp
next
  case (Cons d ds)
  from Cons.prems obtain r1 st1 where v: "visit n deps st d = Some (r1, st1)"
    by (cases "visit n deps st d") auto
  note m1 = V[OF v]
  show ?case
  proof (cases r1)
    case False
    then have "st' = st1" using Cons.prems v by simp
    then show ?thesis using m1 by simp
  next
    case True
    then have "visitDependencies n deps st1 ds = Some (r, st')" using Cons.prems v by simp
    then have "unvisited st' \<subseteq> unvisited st1" by (rule Cons.IH)
    then show ?thesis using m1 by blast
  qed
qed

lemma unvisited_update:
  "c = VISITING \<or> c = VISITED \<Longrightarrow> unvisited (st(v \<mapsto> c)) = unvisited st - {v}"
  by (auto simp: unvisited_def)

lemma visit_mono: "visit n deps st v = Some (r, st') \<Longrightarrow> unvisited st' \<subseteq> unvisited st"
proof (induction n arbitrary: st v r st')
  case 0
  then show ?case by simp
next
  case (Suc n)
  have D: "unvisited s' \<subseteq> unvisited s" if "visitDependencies n deps s ds = Some (b, s')" for s ds b s'
    using that by (rule visitDependencies_mono[rotated]) (rule Suc.IH)
  consider (coloured) "st v = Some VISITING \<or> st v = Some VISITED"
    | (white) "st v \<noteq> Some VISITING" "st v \<noteq> Some VISITED" by blast
  then show ?case
  proof cases
    case coloured
    then have "st' = st" using Suc.prems by (auto split: if_splits)
    then show ?thesis by simp
  next
    case white
    from Suc.prems white obtain r2 st2 where
      d: "visitDependencies n deps (st(v \<mapsto> VISITING)) (deps v) = Some (r2, st2)"
      by (cases "visitDependencies n deps (st(v \<mapsto> VISITING)) (deps v)") auto
    have m: "unvisited st2 \<subseteq> unvisited st - {v}"
      using D[OF d] by (simp add: unvisited_update)
    show ?thesis
    proof (cases r2)
      case False
      then have "st' = st2" using Suc.prems white d by simp
      then show ?thesis using m by blast
    next
      case True
      then have "st' = st2(v \<mapsto> VISITED)" using Suc.prems white d by simp
      then have "unvisited st' = unvisited st2 - {v}" by (simp add: unvisited_update)
      then show ?thesis using m by blast
    qed
  qed
qed

lemma visitDependencies_returns:
  assumes V: "\<And>st v. v \<in> U \<Longrightarrow> card (U \<inter> unvisited st) < n \<Longrightarrow> visit n deps st v \<noteq> None"
    and fin: "finite U"
  shows "set ds \<subseteq> U \<Longrightarrow> card (U \<inter> unvisited st) < n \<Longrightarrow> visitDependencies n deps st ds \<noteq> None"
proof (induction ds arbitrary: st)
  case Nil
  then show ?case by simp
next
  case (Cons d ds)
  have "visit n deps st d \<noteq> None" using V Cons.prems by simp
  then obtain r1 st1 where v: "visit n deps st d = Some (r1, st1)" by auto
  have "U \<inter> unvisited st1 \<subseteq> U \<inter> unvisited st" using visit_mono[OF v] by blast
  then have "card (U \<inter> unvisited st1) \<le> card (U \<inter> unvisited st)"
    using fin by (simp add: card_mono)
  then have c1: "card (U \<inter> unvisited st1) < n" using Cons.prems(2) by simp
  have "visitDependencies n deps st1 ds \<noteq> None" using Cons.IH Cons.prems(1) c1 by simp
  then show ?case using v by (cases r1) simp_all
qed

lemma visit_returns:
  assumes fin: "finite U" and closed: "\<forall>v \<in> U. set (deps v) \<subseteq> U"
  shows "v \<in> U \<Longrightarrow> card (U \<inter> unvisited st) < n \<Longrightarrow> visit n deps st v \<noteq> None"
proof (induction n arbitrary: st v)
  case 0
  then show ?case by simp
next
  case (Suc n)
  have D: "visitDependencies n deps s ds \<noteq> None"
    if "set ds \<subseteq> U" "card (U \<inter> unvisited s) < n" for s ds
  proof (rule visitDependencies_returns[OF _ fin that])
    fix st' w
    assume "w \<in> U" "card (U \<inter> unvisited st') < n"
    then show "visit n deps st' w \<noteq> None" by (rule Suc.IH)
  qed
  consider (coloured) "st v = Some VISITING \<or> st v = Some VISITED"
    | (white) "st v \<noteq> Some VISITING" "st v \<noteq> Some VISITED" by blast
  then show ?case
  proof cases
    case coloured
    then show ?thesis by auto
  next
    case white
    have vin: "v \<in> U \<inter> unvisited st" using Suc.prems(1) white by (simp add: unvisited_def)
    have "U \<inter> unvisited (st(v \<mapsto> VISITING)) = (U \<inter> unvisited st) - {v}"
      by (auto simp: unvisited_update)
    then have "card (U \<inter> unvisited (st(v \<mapsto> VISITING))) = card (U \<inter> unvisited st) - 1"
      using vin fin by simp
    moreover have "0 < card (U \<inter> unvisited st)"
      using vin fin by (metis card_gt_0_iff empty_iff finite_Int)
    ultimately have c: "card (U \<inter> unvisited (st(v \<mapsto> VISITING))) < n"
      using Suc.prems(2) by linarith
    have "set (deps v) \<subseteq> U" using closed Suc.prems(1) by blast
    then have "visitDependencies n deps (st(v \<mapsto> VISITING)) (deps v) \<noteq> None"
      using c by (rule D)
    then obtain r2 st2 where
      "visitDependencies n deps (st(v \<mapsto> VISITING)) (deps v) = Some (r2, st2)" by auto
    then show ?thesis using white by (cases r2) simp_all
  qed
qed

lemma isDAGLoop_correct:
  assumes fin: "finite U" and closed: "\<forall>v \<in> U. set (deps v) \<subseteq> U"
  shows "set os \<subseteq> U \<Longrightarrow> card (U \<inter> unvisited st) < n \<Longrightarrow> settled deps st
     \<Longrightarrow> \<forall>x. st x \<noteq> Some VISITING
     \<Longrightarrow> isDAGLoop n deps st os = Some (\<not> (\<exists>obj \<in> set os. cycleFrom deps obj))"
proof (induction os arbitrary: st)
  case Nil
  then show ?case by simp
next
  case (Cons obj os)
  show ?case
  proof (cases "st obj = Some VISITED")
    case True
    have "\<not> cycleFrom deps obj" using settled_no_cycle[OF Cons.prems(3) True] .
    moreover have "isDAGLoop n deps st os = Some (\<not> (\<exists>x \<in> set os. cycleFrom deps x))"
      using Cons.IH Cons.prems by simp
    ultimately show ?thesis using True by simp
  next
    case False
    have "visit n deps st obj \<noteq> None"
      using visit_returns[OF fin closed] Cons.prems(1,2) by simp
    then obtain r1 st1 where v: "visit n deps st obj = Some (r1, st1)" by auto
    have pre: "visitPre deps st [obj]" using Cons.prems(3,4) by (simp add: visitPre_def)
    have spec: "visitSpec deps st [obj] (Some (r1, st1))"
      using visit_spec[OF pre, of n] v by simp
    show ?thesis
    proof (cases r1)
      case r1: False
      then have "cycleFrom deps obj" using spec by (simp add: visitSpec_def)
      then show ?thesis using False v r1 by simp
    next
      case r1: True
      then have s1: "settled deps st1" "extends st st1" "st1 obj = Some VISITED"
        using spec by (simp_all add: visitSpec_def)
      have nc: "\<not> cycleFrom deps obj" using settled_no_cycle[OF s1(1,3)] .
      have "U \<inter> unvisited st1 \<subseteq> U \<inter> unvisited st" using visit_mono[OF v] by blast
      then have "card (U \<inter> unvisited st1) \<le> card (U \<inter> unvisited st)"
        using fin by (simp add: card_mono)
      then have c1: "card (U \<inter> unvisited st1) < n" using Cons.prems(2) by simp
      have g1: "\<forall>x. st1 x \<noteq> Some VISITING" using s1(2) Cons.prems(4) by (simp add: extends_def)
      have "isDAGLoop n deps st1 os = Some (\<not> (\<exists>x \<in> set os. cycleFrom deps x))"
        using Cons.IH[OF _ c1 s1(1) g1] Cons.prems(1) by simp
      then show ?thesis using False v r1 nc by simp
    qed
  qed
qed

lemma dependenciesOf_keys:
  "d \<in> set (dependenciesOf g v) \<Longrightarrow>
     v \<in> fst ` set g \<and> d \<in> set (concat (map (\<lambda>(k, object). getAllDependencies object) g))"
proof -
  assume d: "d \<in> set (dependenciesOf g v)"
  then obtain object where ob: "map_of g v = Some object" "d \<in> set (getAllDependencies object)"
    by (cases "map_of g v") (simp_all add: dependenciesOf_def)
  have mem: "(v, object) \<in> set g" using ob(1) by (rule map_of_SomeD)
  then have "v \<in> fst ` set g" by force
  moreover have "d \<in> set (concat (map (\<lambda>(k, object). getAllDependencies object) g))"
    using mem ob(2) by force
  ultimately show ?thesis by simp
qed

lemma isDAG_acyclic:
  assumes n: "stackDepth g \<le> n"
  shows "isDAG n g = Some (acyclic (dependencyRelation (dependenciesOf g)))"
proof -
  let ?deps = "dependenciesOf g"
  let ?R = "dependencyRelation ?deps"
  let ?ds = "concat (map (\<lambda>(k, object). getAllDependencies object) g)"
  let ?U = "set (map fst g) \<union> set ?ds"
  have fin: "finite ?U" by (intro finite_UnI finite_set)
  have closed: "\<forall>v \<in> ?U. set (?deps v) \<subseteq> ?U"
    using dependenciesOf_keys[of _ g] by blast
  have "card ?U \<le> card (set (map fst g)) + card (set ?ds)" by (rule card_Un_le)
  also have "\<dots> \<le> length (map fst g) + length ?ds"
    by (rule add_mono) (rule card_length)+
  finally have "card ?U < stackDepth g" by (simp add: stackDepth_def)
  moreover have "card (?U \<inter> unvisited Map.empty) \<le> card ?U"
    using fin by (simp add: card_mono)
  ultimately have c: "card (?U \<inter> unvisited Map.empty) < n" using n by linarith
  have s: "settled ?deps Map.empty" by (simp add: settled_def)
  have "isDAGLoop n ?deps Map.empty (map fst g)
          = Some (\<not> (\<exists>obj \<in> set (map fst g). cycleFrom ?deps obj))"
    by (rule isDAGLoop_correct[OF fin closed _ c s]) simp_all
  moreover have "(\<exists>obj \<in> set (map fst g). cycleFrom ?deps obj) = (\<not> acyclic ?R)"
  proof
    assume "\<exists>obj \<in> set (map fst g). cycleFrom ?deps obj"
    then show "\<not> acyclic ?R" by (auto simp: cycleFrom_def acyclic_def)
  next
    assume "\<not> acyclic ?R"
    then obtain x where x: "(x, x) \<in> ?R\<^sup>+" by (auto simp: acyclic_def)
    then obtain d where "(x, d) \<in> ?R" by (meson tranclD)
    then have "d \<in> set (?deps x)" by (simp add: dependencyRelation_def)
    then have "x \<in> set (map fst g)" using dependenciesOf_keys[of d g x] by simp
    moreover have "cycleFrom ?deps x" using x unfolding cycleFrom_def by blast
    ultimately show "\<exists>obj \<in> set (map fst g). cycleFrom ?deps obj" by blast
  qed
  ultimately show ?thesis unfolding isDAG_def by (simp only: not_not)
qed

subsection \<open>Stoppages and the usage reference\<close>






subsection \<open>The error path of \<open>validate\<close>\<close>

lemma callOnFinish_executed:
  "executed (snd (callOnFinish why msg r)) = executed r"
  by (auto simp: callOnFinish_def calculateAllLLMCosts_def setUsageTable_def
      split: prod.splits sum.splits)

lemma error_outcome:
  "\<exists>e r'. error r msg = (Inl e, r') \<and> isStopped r' \<and> executed r' = executed r
      \<and> (pricedUsage r \<longrightarrow> e = JsError msg
            \<and> (\<exists>c. finished r' = finished r
                  @ [\<lparr>reason = ReasonError, usage_ref = usage r, totalCost_sum = c,
                      message = Some msg\<rparr>]))"
proof -
  let ?r1 = "r\<lparr>isStopped := True\<rparr>"
  obtain x r' where c: "callOnFinish ReasonError (Some msg) ?r1 = (x, r')"
    by (cases "callOnFinish ReasonError (Some msg) ?r1")
  have st: "isStopped r'" using callOnFinish_frame[of ReasonError "Some msg" ?r1] c by simp
  have ex: "executed r' = executed r" using callOnFinish_executed[of ReasonError "Some msg" ?r1] c by simp
  obtain e where e: "error r msg = (Inl e, r')"
    using c by (cases x) (simp_all add: error_def)
  have "e = JsError msg
            \<and> (\<exists>c. finished r' = finished r
                  @ [\<lparr>reason = ReasonError, usage_ref = usage r, totalCost_sum = c,
                      message = Some msg\<rparr>])" if p: "pricedUsage r"
  proof -
    have "pricedUsage ?r1" using p by (simp add: pricedUsage_def usageTableOf_def)
    from callOnFinish_priced[OF this, of ReasonError "Some msg"] c e
    show ?thesis by (auto simp: error_def setUsageTable_def)
  qed
  then show ?thesis using e st ex by blast
qed

lemma errorVertices_outcome:
  assumes "\<exists>(k, item) \<in> set g. isCannoliVertex item"
  shows "\<exists>e r'. errorVertices r g = (Inl e, r') \<and> isStopped r' \<and> executed r' = executed r
      \<and> (pricedUsage r \<longrightarrow> e = JsError cycleMessage
            \<and> (\<exists>c. finished r' = finished r
                  @ [\<lparr>reason = ReasonError, usage_ref = usage r, totalCost_sum = c,
                      message = Some cycleMessage\<rparr>]))"
  using assms
proof (induction g)
  case Nil
  then show ?case by simp
next
  case (Cons p g)
  obtain k object where p: "p = (k, object)" by (cases p)
  show ?case
  proof (cases "isCannoliVertex object")
    case False
    then show ?thesis using Cons p by simp
  next
    case True
    define r1 where "r1 = (if canvas r \<noteq> None \<and> isCannoliVertex object
                then enqueue (AddErrorNode (obj_id object) cycleMessage) r else r)"
    have f: "usage r1 = usage r" "finished r1 = finished r" "executed r1 = executed r"
        "pricedUsage r1 = pricedUsage r"
      by (auto simp: r1_def enqueue_def pricedUsage_def usageTableOf_def split: option.splits)
    have v: "vertexError r object cycleMessage = error r1 cycleMessage"
      by (simp add: vertexError_def objectError_def Let_def r1_def)
    obtain e r' where e: "error r1 cycleMessage = (Inl e, r')" "isStopped r'"
        "executed r' = executed r1"
        "pricedUsage r1 \<longrightarrow> e = JsError cycleMessage
            \<and> (\<exists>c. finished r' = finished r1
                  @ [\<lparr>reason = ReasonError, usage_ref = usage r1, totalCost_sum = c,
                      message = Some cycleMessage\<rparr>])"
      using error_outcome[of r1 cycleMessage] by blast
    have "errorVertices r (p # g) = (Inl e, r')" using True p v e(1) by simp
    then show ?thesis using e f by auto
  qed
qed

section \<open>Properties of the run\<close>

subsection \<open>Cost of one usage record\<close>


subsection \<open>One terminal notification\<close>

text \<open>
  C1. The claim: a run emits at most one stoppage, \<open>stop()\<close> called twice emits one, and
  every stopping path tests \<open>isStopped\<close> before it emits. The code at that input: on a
  freshly constructed run \<open>stop()\<close> called twice calls \<open>onFinish\<close> twice, and
  \<open>error()\<close> after \<open>stop()\<close> calls it again; only the path of \<open>objectCompleted\<close>
  and \<open>objectRejected\<close> tests the flag.
\<close>

theorem stop_twice_emits_twice:
  "finished (snd (stop (snd (stop (newRun [] None False False None)))))
     = [\<lparr>reason = ReasonUser, usage_ref = 0, totalCost_sum = 0, message = None\<rparr>,
        \<lparr>reason = ReasonUser, usage_ref = 0, totalCost_sum = 0, message = None\<rparr>]
   \<and> isStopped (snd (stop (newRun [] None False False None)))
   \<and> map reason (finished (snd (error (snd (stop (newRun [] None False False None))) ''failed'')))
     = [ReasonUser, ReasonError]
   \<and> finished (snd (objectUpdated (snd (stop (newRun [] None False False None)))
         \<lparr>obj_id = ''a'', obj_text = [], status = Complete, dependencies = [],
          getAllDependencies = [], nodeClass = CallNode, isCannoliVertex = True\<rparr> Complete None))
     = [\<lparr>reason = ReasonUser, usage_ref = 0, totalCost_sum = 0, message = None\<rparr>]"
  by (simp add: stop_def error_def callOnFinish_def calculateAllLLMCosts_def getTotalCost_def
      newRun_def usageTableOf_def setUsageTable_def objectCompleted_def
      allObjectsFinished_def Let_def)

subsection \<open>A model name outside the price table\<close>




subsection \<open>What \<open>callLLM\<close> resolves to\<close>




subsection \<open>The token estimate of the mock branch\<close>



subsection \<open>The response of the mock branch\<close>




subsection \<open>The check on \<open>Complete\<close> and \<open>Rejected\<close>\<close>



subsection \<open>Costs written in place\<close>




subsection \<open>Acyclicity of the graph\<close>

text \<open>
  C3, as amended. \<open>isDAG\<close> returns, at every recursion depth from \<open>stackDepth\<close> on,
  \<open>false\<close> for every graph whose dependency relation (as \<open>getAllDependencies\<close> reports
  it) contains a cycle and \<open>true\<close> for every acyclic graph, wherever in the graph the
  cycle lies; a node met again while \<open>VISITING\<close> gives \<open>false\<close>, a \<open>VISITED\<close> node
  is skipped. On an acyclic graph \<open>validate\<close> returns; on a cyclic graph that holds at
  least one vertex, \<open>validate\<close> goes the error path (the run is stopped, an \<open>error\<close>
  stoppage with the cycle message is emitted, the exception leaves \<open>validate\<close> and
  \<open>start\<close>) before any item's \<open>execute()\<close> is called.
\<close>

theorem isDAG_decides_acyclicity:
  "(\<forall>n. stackDepth objects \<le> n \<longrightarrow>
       isDAG n objects = Some (acyclic (dependencyRelation (dependenciesOf objects))))
   \<and> visit (Suc n) deps (states(obj \<mapsto> VISITING)) obj = Some (False, states(obj \<mapsto> VISITING))
   \<and> visit (Suc n) deps (states(obj \<mapsto> VISITED)) obj = Some (True, states(obj \<mapsto> VISITED))
   \<and> (acyclic (dependencyRelation (dependenciesOf (graph r))) \<longrightarrow> validate r = (Inr (), r))
   \<and> (\<not> acyclic (dependencyRelation (dependenciesOf (graph r)))
        \<longrightarrow> (\<exists>(k, item) \<in> set (graph r). isCannoliVertex item)
        \<longrightarrow> (\<exists>e r'. validate (reset r) = (Inl e, r') \<and> start r = (Inl e, r')
               \<and> isStopped r' \<and> executed r' = executed r
               \<and> (pricedUsage r \<longrightarrow> e = JsError cycleMessage
                     \<and> (\<exists>c. finished r' = finished r
                           @ [\<lparr>reason = ReasonError, usage_ref = usage r, totalCost_sum = c,
                               message = Some cycleMessage\<rparr>]))))"
proof (intro conjI allI impI)
  fix n
  assume "stackDepth objects \<le> n"
  then show "isDAG n objects = Some (acyclic (dependencyRelation (dependenciesOf objects)))"
    by (rule isDAG_acyclic)
next
  show "visit (Suc n) deps (states(obj \<mapsto> VISITING)) obj = Some (False, states(obj \<mapsto> VISITING))"
    by simp
next
  show "visit (Suc n) deps (states(obj \<mapsto> VISITED)) obj = Some (True, states(obj \<mapsto> VISITED))"
    by simp
next
  assume "acyclic (dependencyRelation (dependenciesOf (graph r)))"
  then show "validate r = (Inr (), r)"
    using isDAG_acyclic[of "graph r" "stackDepth (graph r)"] by (simp add: validate_def)
next
  assume cyc: "\<not> acyclic (dependencyRelation (dependenciesOf (graph r)))"
    and vert: "\<exists>(k, item) \<in> set (graph r). isCannoliVertex item"
  let ?r0 = "reset r"
  have g: "graph ?r0 = graph r" "executed ?r0 = executed r" "finished ?r0 = finished r"
      "usage ?r0 = usage r" "pricedUsage ?r0 = pricedUsage r"
    by (simp_all add: reset_def pricedUsage_def usageTableOf_def)
  have "isDAG (stackDepth (graph ?r0)) (graph ?r0) = Some False"
    using isDAG_acyclic[of "graph r" "stackDepth (graph r)"] cyc g(1) by simp
  then have v: "validate ?r0 = errorVertices ?r0 (graph r)"
    using g(1) by (simp add: validate_def)
  obtain e r' where e: "errorVertices ?r0 (graph r) = (Inl e, r')" "isStopped r'"
      "executed r' = executed ?r0"
      "pricedUsage ?r0 \<longrightarrow> e = JsError cycleMessage
            \<and> (\<exists>c. finished r' = finished ?r0
                  @ [\<lparr>reason = ReasonError, usage_ref = usage ?r0, totalCost_sum = c,
                      message = Some cycleMessage\<rparr>])"
    using errorVertices_outcome[OF vert, of ?r0] by blast
  have "start r = (Inl e, r')" using v e(1) by (simp add: start_def)
  then show "\<exists>e r'. validate (reset r) = (Inl e, r') \<and> start r = (Inl e, r')
               \<and> isStopped r' \<and> executed r' = executed r
               \<and> (pricedUsage r \<longrightarrow> e = JsError cycleMessage
                     \<and> (\<exists>c. finished r' = finished r
                           @ [\<lparr>reason = ReasonError, usage_ref = usage r, totalCost_sum = c,
                               message = Some cycleMessage\<rparr>]))"
    using v e g by auto
qed

theorem isDAG_decides_acyclicity_witness:
  "isDAG (stackDepth
      [(''a'', \<lparr>obj_id = ''a'', obj_text = [], status = Pending, dependencies = [''b''],
               getAllDependencies = [''b''], nodeClass = CallNode, isCannoliVertex = True\<rparr>),
          (''b'', \<lparr>obj_id = ''b'', obj_text = [], status = Pending, dependencies = [''a''],
               getAllDependencies = [''a''], nodeClass = CallNode, isCannoliVertex = True\<rparr>),
          (''c'', \<lparr>obj_id = ''c'', obj_text = [], status = Pending, dependencies = [],
               getAllDependencies = [], nodeClass = CallNode, isCannoliVertex = True\<rparr>)])
      [(''a'', \<lparr>obj_id = ''a'', obj_text = [], status = Pending, dependencies = [''b''],
               getAllDependencies = [''b''], nodeClass = CallNode, isCannoliVertex = True\<rparr>),
          (''b'', \<lparr>obj_id = ''b'', obj_text = [], status = Pending, dependencies = [''a''],
               getAllDependencies = [''a''], nodeClass = CallNode, isCannoliVertex = True\<rparr>),
          (''c'', \<lparr>obj_id = ''c'', obj_text = [], status = Pending, dependencies = [],
               getAllDependencies = [], nodeClass = CallNode, isCannoliVertex = True\<rparr>)] = Some False
   \<and> \<not> acyclic (dependencyRelation (dependenciesOf
      [(''a'', \<lparr>obj_id = ''a'', obj_text = [], status = Pending, dependencies = [''b''],
               getAllDependencies = [''b''], nodeClass = CallNode, isCannoliVertex = True\<rparr>),
          (''b'', \<lparr>obj_id = ''b'', obj_text = [], status = Pending, dependencies = [''a''],
               getAllDependencies = [''a''], nodeClass = CallNode, isCannoliVertex = True\<rparr>),
          (''c'', \<lparr>obj_id = ''c'', obj_text = [], status = Pending, dependencies = [],
               getAllDependencies = [], nodeClass = CallNode, isCannoliVertex = True\<rparr>)]))
   \<and> fst (start (newRun
         [(''a'', \<lparr>obj_id = ''a'', obj_text = [], status = Pending, dependencies = [''b''],
               getAllDependencies = [''b''], nodeClass = CallNode, isCannoliVertex = True\<rparr>),
          (''b'', \<lparr>obj_id = ''b'', obj_text = [], status = Pending, dependencies = [''a''],
               getAllDependencies = [''a''], nodeClass = CallNode, isCannoliVertex = True\<rparr>),
          (''c'', \<lparr>obj_id = ''c'', obj_text = [], status = Pending, dependencies = [],
               getAllDependencies = [], nodeClass = CallNode, isCannoliVertex = True\<rparr>)]
         None False False None)) = Inl (JsError cycleMessage)
   \<and> executed (snd (start (newRun
         [(''a'', \<lparr>obj_id = ''a'', obj_text = [], status = Pending, dependencies = [''b''],
               getAllDependencies = [''b''], nodeClass = CallNode, isCannoliVertex = True\<rparr>),
          (''b'', \<lparr>obj_id = ''b'', obj_text = [], status = Pending, dependencies = [''a''],
               getAllDependencies = [''a''], nodeClass = CallNode, isCannoliVertex = True\<rparr>),
          (''c'', \<lparr>obj_id = ''c'', obj_text = [], status = Pending, dependencies = [],
               getAllDependencies = [], nodeClass = CallNode, isCannoliVertex = True\<rparr>)]
         None False False None))) = []
   \<and> map reason (finished (snd (start (newRun
         [(''a'', \<lparr>obj_id = ''a'', obj_text = [], status = Pending, dependencies = [''b''],
               getAllDependencies = [''b''], nodeClass = CallNode, isCannoliVertex = True\<rparr>),
          (''b'', \<lparr>obj_id = ''b'', obj_text = [], status = Pending, dependencies = [''a''],
               getAllDependencies = [''a''], nodeClass = CallNode, isCannoliVertex = True\<rparr>),
          (''c'', \<lparr>obj_id = ''c'', obj_text = [], status = Pending, dependencies = [],
               getAllDependencies = [], nodeClass = CallNode, isCannoliVertex = True\<rparr>)]
         None False False None)))) = [ReasonError]
   \<and> isStopped (snd (start (newRun
         [(''a'', \<lparr>obj_id = ''a'', obj_text = [], status = Pending, dependencies = [''b''],
               getAllDependencies = [''b''], nodeClass = CallNode, isCannoliVertex = True\<rparr>),
          (''b'', \<lparr>obj_id = ''b'', obj_text = [], status = Pending, dependencies = [''a''],
               getAllDependencies = [''a''], nodeClass = CallNode, isCannoliVertex = True\<rparr>),
          (''c'', \<lparr>obj_id = ''c'', obj_text = [], status = Pending, dependencies = [],
               getAllDependencies = [], nodeClass = CallNode, isCannoliVertex = True\<rparr>)]
         None False False None)))"
proof -
  let ?g = "[(''a'', \<lparr>obj_id = ''a'', obj_text = [], status = Pending, dependencies = [''b''],
               getAllDependencies = [''b''], nodeClass = CallNode, isCannoliVertex = True\<rparr>),
          (''b'', \<lparr>obj_id = ''b'', obj_text = [], status = Pending, dependencies = [''a''],
               getAllDependencies = [''a''], nodeClass = CallNode, isCannoliVertex = True\<rparr>),
          (''c'', \<lparr>obj_id = ''c'', obj_text = [], status = Pending, dependencies = [],
               getAllDependencies = [], nodeClass = CallNode, isCannoliVertex = True\<rparr>)]"
  let ?r = "(newRun
         [(''a'', \<lparr>obj_id = ''a'', obj_text = [], status = Pending, dependencies = [''b''],
               getAllDependencies = [''b''], nodeClass = CallNode, isCannoliVertex = True\<rparr>),
          (''b'', \<lparr>obj_id = ''b'', obj_text = [], status = Pending, dependencies = [''a''],
               getAllDependencies = [''a''], nodeClass = CallNode, isCannoliVertex = True\<rparr>),
          (''c'', \<lparr>obj_id = ''c'', obj_text = [], status = Pending, dependencies = [],
               getAllDependencies = [], nodeClass = CallNode, isCannoliVertex = True\<rparr>)]
         None False False None)"
  note inst = isDAG_decides_acyclicity [of ?g 0 "\<lambda>x. []" Map.empty "''a''" ?r]
  have ev: "isDAG (stackDepth ?g) ?g = Some False"
    by (simp add: stackDepth_def isDAG_def dependenciesOf_def eval_nat_numeral)
  have "isDAG (stackDepth ?g) ?g = Some (acyclic (dependencyRelation (dependenciesOf ?g)))"
    using inst by blast
  then have nac: "\<not> acyclic (dependencyRelation (dependenciesOf ?g))" using ev by simp
  have gr: "graph ?r = ?g" by (simp add: newRun_def)
  have vert: "\<exists>(k, item) \<in> set (graph ?r). isCannoliVertex item" by (simp add: newRun_def)
  have priced: "pricedUsage ?r" by (simp add: pricedUsage_def usageTableOf_def newRun_def)
  have fin: "finished ?r = []" "executed ?r = []" by (simp_all add: newRun_def)
  from inst nac vert gr obtain e r' where o: "start ?r = (Inl e, r')" "isStopped r'"
      "executed r' = executed ?r"
      "pricedUsage ?r \<longrightarrow> e = JsError cycleMessage
         \<and> (\<exists>c. finished r' = finished ?r
               @ [\<lparr>reason = ReasonError, usage_ref = usage ?r, totalCost_sum = c,
                   message = Some cycleMessage\<rparr>])"
    by auto
  then have "fst (start ?r) = Inl (JsError cycleMessage)" "executed (snd (start ?r)) = []"
      "map reason (finished (snd (start ?r))) = [ReasonError]" "isStopped (snd (start ?r))"
    using priced fin by auto
  then show ?thesis using ev nac by blast
qed

text \<open>
  The claim as stated fails for a cyclic graph without a vertex: \<open>validate\<close> finds no
  item to report the cycle through and returns, and \<open>start\<close> goes on to execute the
  items without dependencies.
\<close>

theorem isDAG_decides_acyclicity_counterexample:
  "\<not> acyclic (dependencyRelation (dependenciesOf
      [(''a'', \<lparr>obj_id = ''a'', obj_text = [], status = Pending, dependencies = [''b''],
               getAllDependencies = [''b''], nodeClass = OtherClass, isCannoliVertex = False\<rparr>),
          (''b'', \<lparr>obj_id = ''b'', obj_text = [], status = Pending, dependencies = [''a''],
               getAllDependencies = [''a''], nodeClass = OtherClass, isCannoliVertex = False\<rparr>),
          (''c'', \<lparr>obj_id = ''c'', obj_text = [], status = Pending, dependencies = [],
               getAllDependencies = [], nodeClass = OtherClass, isCannoliVertex = False\<rparr>)]))
   \<and> isDAG (stackDepth
      [(''a'', \<lparr>obj_id = ''a'', obj_text = [], status = Pending, dependencies = [''b''],
               getAllDependencies = [''b''], nodeClass = OtherClass, isCannoliVertex = False\<rparr>),
          (''b'', \<lparr>obj_id = ''b'', obj_text = [], status = Pending, dependencies = [''a''],
               getAllDependencies = [''a''], nodeClass = OtherClass, isCannoliVertex = False\<rparr>),
          (''c'', \<lparr>obj_id = ''c'', obj_text = [], status = Pending, dependencies = [],
               getAllDependencies = [], nodeClass = OtherClass, isCannoliVertex = False\<rparr>)])
      [(''a'', \<lparr>obj_id = ''a'', obj_text = [], status = Pending, dependencies = [''b''],
               getAllDependencies = [''b''], nodeClass = OtherClass, isCannoliVertex = False\<rparr>),
          (''b'', \<lparr>obj_id = ''b'', obj_text = [], status = Pending, dependencies = [''a''],
               getAllDependencies = [''a''], nodeClass = OtherClass, isCannoliVertex = False\<rparr>),
          (''c'', \<lparr>obj_id = ''c'', obj_text = [], status = Pending, dependencies = [],
               getAllDependencies = [], nodeClass = OtherClass, isCannoliVertex = False\<rparr>)] = Some False
   \<and> fst (validate (newRun
         [(''a'', \<lparr>obj_id = ''a'', obj_text = [], status = Pending, dependencies = [''b''],
               getAllDependencies = [''b''], nodeClass = OtherClass, isCannoliVertex = False\<rparr>),
          (''b'', \<lparr>obj_id = ''b'', obj_text = [], status = Pending, dependencies = [''a''],
               getAllDependencies = [''a''], nodeClass = OtherClass, isCannoliVertex = False\<rparr>),
          (''c'', \<lparr>obj_id = ''c'', obj_text = [], status = Pending, dependencies = [],
               getAllDependencies = [], nodeClass = OtherClass, isCannoliVertex = False\<rparr>)]
         None False False None)) = Inr ()
   \<and> fst (start (newRun
         [(''a'', \<lparr>obj_id = ''a'', obj_text = [], status = Pending, dependencies = [''b''],
               getAllDependencies = [''b''], nodeClass = OtherClass, isCannoliVertex = False\<rparr>),
          (''b'', \<lparr>obj_id = ''b'', obj_text = [], status = Pending, dependencies = [''a''],
               getAllDependencies = [''a''], nodeClass = OtherClass, isCannoliVertex = False\<rparr>),
          (''c'', \<lparr>obj_id = ''c'', obj_text = [], status = Pending, dependencies = [],
               getAllDependencies = [], nodeClass = OtherClass, isCannoliVertex = False\<rparr>)]
         None False False None)) = Inr ()
   \<and> executed (snd (start (newRun
         [(''a'', \<lparr>obj_id = ''a'', obj_text = [], status = Pending, dependencies = [''b''],
               getAllDependencies = [''b''], nodeClass = OtherClass, isCannoliVertex = False\<rparr>),
          (''b'', \<lparr>obj_id = ''b'', obj_text = [], status = Pending, dependencies = [''a''],
               getAllDependencies = [''a''], nodeClass = OtherClass, isCannoliVertex = False\<rparr>),
          (''c'', \<lparr>obj_id = ''c'', obj_text = [], status = Pending, dependencies = [],
               getAllDependencies = [], nodeClass = OtherClass, isCannoliVertex = False\<rparr>)]
         None False False None))) = [''c'']
   \<and> finished (snd (start (newRun
         [(''a'', \<lparr>obj_id = ''a'', obj_text = [], status = Pending, dependencies = [''b''],
               getAllDependencies = [''b''], nodeClass = OtherClass, isCannoliVertex = False\<rparr>),
          (''b'', \<lparr>obj_id = ''b'', obj_text = [], status = Pending, dependencies = [''a''],
               getAllDependencies = [''a''], nodeClass = OtherClass, isCannoliVertex = False\<rparr>),
          (''c'', \<lparr>obj_id = ''c'', obj_text = [], status = Pending, dependencies = [],
               getAllDependencies = [], nodeClass = OtherClass, isCannoliVertex = False\<rparr>)]
         None False False None))) = []
   \<and> \<not> isStopped (snd (start (newRun
         [(''a'', \<lparr>obj_id = ''a'', obj_text = [], status = Pending, dependencies = [''b''],
               getAllDependencies = [''b''], nodeClass = OtherClass, isCannoliVertex = False\<rparr>),
          (''b'', \<lparr>obj_id = ''b'', obj_text = [], status = Pending, dependencies = [''a''],
               getAllDependencies = [''a''], nodeClass = OtherClass, isCannoliVertex = False\<rparr>),
          (''c'', \<lparr>obj_id = ''c'', obj_text = [], status = Pending, dependencies = [],
               getAllDependencies = [], nodeClass = OtherClass, isCannoliVertex = False\<rparr>)]
         None False False None)))"
proof -
  have ev: "isDAG (stackDepth
      [(''a'', \<lparr>obj_id = ''a'', obj_text = [], status = Pending, dependencies = [''b''],
               getAllDependencies = [''b''], nodeClass = OtherClass, isCannoliVertex = False\<rparr>),
          (''b'', \<lparr>obj_id = ''b'', obj_text = [], status = Pending, dependencies = [''a''],
               getAllDependencies = [''a''], nodeClass = OtherClass, isCannoliVertex = False\<rparr>),
          (''c'', \<lparr>obj_id = ''c'', obj_text = [], status = Pending, dependencies = [],
               getAllDependencies = [], nodeClass = OtherClass, isCannoliVertex = False\<rparr>)])
      [(''a'', \<lparr>obj_id = ''a'', obj_text = [], status = Pending, dependencies = [''b''],
               getAllDependencies = [''b''], nodeClass = OtherClass, isCannoliVertex = False\<rparr>),
          (''b'', \<lparr>obj_id = ''b'', obj_text = [], status = Pending, dependencies = [''a''],
               getAllDependencies = [''a''], nodeClass = OtherClass, isCannoliVertex = False\<rparr>),
          (''c'', \<lparr>obj_id = ''c'', obj_text = [], status = Pending, dependencies = [],
               getAllDependencies = [], nodeClass = OtherClass, isCannoliVertex = False\<rparr>)] = Some False"
    by (simp add: stackDepth_def isDAG_def dependenciesOf_def eval_nat_numeral)
  have nac: "\<not> acyclic (dependencyRelation (dependenciesOf
      [(''a'', \<lparr>obj_id = ''a'', obj_text = [], status = Pending, dependencies = [''b''],
               getAllDependencies = [''b''], nodeClass = OtherClass, isCannoliVertex = False\<rparr>),
          (''b'', \<lparr>obj_id = ''b'', obj_text = [], status = Pending, dependencies = [''a''],
               getAllDependencies = [''a''], nodeClass = OtherClass, isCannoliVertex = False\<rparr>),
          (''c'', \<lparr>obj_id = ''c'', obj_text = [], status = Pending, dependencies = [],
               getAllDependencies = [], nodeClass = OtherClass, isCannoliVertex = False\<rparr>)]))"
    using isDAG_acyclic[of "[(''a'', \<lparr>obj_id = ''a'', obj_text = [], status = Pending, dependencies = [''b''],
               getAllDependencies = [''b''], nodeClass = OtherClass, isCannoliVertex = False\<rparr>),
          (''b'', \<lparr>obj_id = ''b'', obj_text = [], status = Pending, dependencies = [''a''],
               getAllDependencies = [''a''], nodeClass = OtherClass, isCannoliVertex = False\<rparr>),
          (''c'', \<lparr>obj_id = ''c'', obj_text = [], status = Pending, dependencies = [],
               getAllDependencies = [], nodeClass = OtherClass, isCannoliVertex = False\<rparr>)]" "stackDepth
      [(''a'', \<lparr>obj_id = ''a'', obj_text = [], status = Pending, dependencies = [''b''],
               getAllDependencies = [''b''], nodeClass = OtherClass, isCannoliVertex = False\<rparr>),
          (''b'', \<lparr>obj_id = ''b'', obj_text = [], status = Pending, dependencies = [''a''],
               getAllDependencies = [''a''], nodeClass = OtherClass, isCannoliVertex = False\<rparr>),
          (''c'', \<lparr>obj_id = ''c'', obj_text = [], status = Pending, dependencies = [],
               getAllDependencies = [], nodeClass = OtherClass, isCannoliVertex = False\<rparr>)]"] ev
    by simp
  have rest: "fst (validate (newRun
         [(''a'', \<lparr>obj_id = ''a'', obj_text = [], status = Pending, dependencies = [''b''],
               getAllDependencies = [''b''], nodeClass = OtherClass, isCannoliVertex = False\<rparr>),
          (''b'', \<lparr>obj_id = ''b'', obj_text = [], status = Pending, dependencies = [''a''],
               getAllDependencies = [''a''], nodeClass = OtherClass, isCannoliVertex = False\<rparr>),
          (''c'', \<lparr>obj_id = ''c'', obj_text = [], status = Pending, dependencies = [],
               getAllDependencies = [], nodeClass = OtherClass, isCannoliVertex = False\<rparr>)]
         None False False None)) = Inr ()
   \<and> fst (start (newRun
         [(''a'', \<lparr>obj_id = ''a'', obj_text = [], status = Pending, dependencies = [''b''],
               getAllDependencies = [''b''], nodeClass = OtherClass, isCannoliVertex = False\<rparr>),
          (''b'', \<lparr>obj_id = ''b'', obj_text = [], status = Pending, dependencies = [''a''],
               getAllDependencies = [''a''], nodeClass = OtherClass, isCannoliVertex = False\<rparr>),
          (''c'', \<lparr>obj_id = ''c'', obj_text = [], status = Pending, dependencies = [],
               getAllDependencies = [], nodeClass = OtherClass, isCannoliVertex = False\<rparr>)]
         None False False None)) = Inr ()
   \<and> executed (snd (start (newRun
         [(''a'', \<lparr>obj_id = ''a'', obj_text = [], status = Pending, dependencies = [''b''],
               getAllDependencies = [''b''], nodeClass = OtherClass, isCannoliVertex = False\<rparr>),
          (''b'', \<lparr>obj_id = ''b'', obj_text = [], status = Pending, dependencies = [''a''],
               getAllDependencies = [''a''], nodeClass = OtherClass, isCannoliVertex = False\<rparr>),
          (''c'', \<lparr>obj_id = ''c'', obj_text = [], status = Pending, dependencies = [],
               getAllDependencies = [], nodeClass = OtherClass, isCannoliVertex = False\<rparr>)]
         None False False None))) = [''c'']
   \<and> finished (snd (start (newRun
         [(''a'', \<lparr>obj_id = ''a'', obj_text = [], status = Pending, dependencies = [''b''],
               getAllDependencies = [''b''], nodeClass = OtherClass, isCannoliVertex = False\<rparr>),
          (''b'', \<lparr>obj_id = ''b'', obj_text = [], status = Pending, dependencies = [''a''],
               getAllDependencies = [''a''], nodeClass = OtherClass, isCannoliVertex = False\<rparr>),
          (''c'', \<lparr>obj_id = ''c'', obj_text = [], status = Pending, dependencies = [],
               getAllDependencies = [], nodeClass = OtherClass, isCannoliVertex = False\<rparr>)]
         None False False None))) = []
   \<and> \<not> isStopped (snd (start (newRun
         [(''a'', \<lparr>obj_id = ''a'', obj_text = [], status = Pending, dependencies = [''b''],
               getAllDependencies = [''b''], nodeClass = OtherClass, isCannoliVertex = False\<rparr>),
          (''b'', \<lparr>obj_id = ''b'', obj_text = [], status = Pending, dependencies = [''a''],
               getAllDependencies = [''a''], nodeClass = OtherClass, isCannoliVertex = False\<rparr>),
          (''c'', \<lparr>obj_id = ''c'', obj_text = [], status = Pending, dependencies = [],
               getAllDependencies = [], nodeClass = OtherClass, isCannoliVertex = False\<rparr>)]
         None False False None)))"
    using ev by (simp add: validate_def start_def reset_def newRun_def)
  show ?thesis using ev nac rest by blast
qed

end
